theory Spec2Isabelle
  imports Main
begin

section \<open>Data model\<close>

text \<open>
  Modelled from the spec: the module \<open>tokens\<close> (classes \<open>TokenType\<close> and \<open>Token\<close>) is
  imported by \<open>pa4/parser.py\<close> but is not part of the sources. The spec (section 3) gives
  the thirteen token kinds and the three optional payload fields \<open>name\<close>, \<open>lexeme\<close> and
  \<open>intvalue\<close>; an absent payload is Python's \<open>None\<close>.
\<close>

datatype TokenType =
    PRINT | INTDEC | VARREF | ASSIGN | INTLIT
  | PLUS | MINUS | TIMES | DIVIDE | EXPONENT
  | LPAREN | RPAREN | EOF

record Token =
  tokentype :: TokenType
  name :: "string option"
  lexeme :: "string option"
  intvalue :: "int option"

text \<open>
  Modelled from the spec: the module \<open>acdcast\<close> (the AST node classes) is not part of the
  sources. The spec (section 3) gives the six node variants and their fields.
\<close>

datatype ASTNode =
    PrintNode string
  | IntDclNode string
  | AssignNode string ASTNode
  | IntLitNode int
  | VarRefNode string
  | BinOpNode TokenType ASTNode ASTNode

text \<open>
  Every \<open>raise ParseError(msg)\<close> of the parser is one constructor, named after its message;
  two \<open>raise\<close> statements with the same message are the same value, as they are the same
  exception for a caller. The interpolated token kinds are kept as arguments.
  \<open>PyIndexError\<close> and \<open>PyKeyError\<close> are Python's own exceptions for \<open>pop\<close> on an empty
  list and a missing dictionary key. \<open>StreamExhausted\<close> stands for whatever the token stream
  does when asked for a token beyond its last one.
\<close>

datatype error =
    ExpectedButFound TokenType TokenType
  | MalformedPRINT
  | MalformedINTDEC
  | MalformedVARREF_LHS
  | UnexpectedStatementStart TokenType
  | MalformedINTLIT
  | ExpectedOperatorAfterIntLit
  | ExpectedOperatorAfterVarRef
  | MismatchedParentheses
  | ExpectedOperandAfterLparen
  | ExpectedTwoOperands TokenType
  | ExpectedOperandAfterOperator
  | UnexpectedTokenInExpression Token
  | DidNotReduceToOne
  | PyIndexError
  | PyKeyError
  | StreamExhausted

section \<open>Token stream\<close>

text \<open>
  Modelled from the spec: the module \<open>tokenstream\<close> (class \<open>TokenStream\<close>) is not part of
  the sources. The spec (section 2) gives \<open>peek\<close>, a lookahead that consumes nothing, and
  \<open>read\<close>, which consumes and returns the next token. The stream is the list of the tokens
  not yet consumed; \<open>read\<close> returns the rest of the stream with the token. The spec does not
  say what either does on a stream with no token left: the model fails there with
  \<open>StreamExhausted\<close>.
\<close>

type_synonym TokenStream = "Token list"

definition peek :: "TokenStream \<Rightarrow> error + Token" where
  "peek ts = (case ts of [] \<Rightarrow> Inl StreamExhausted | t # _ \<Rightarrow> Inr t)"

definition read :: "TokenStream \<Rightarrow> error + (Token \<times> TokenStream)" where
  "read ts = (case ts of [] \<Rightarrow> Inl StreamExhausted | t # rest \<Rightarrow> Inr (t, rest))"

section \<open>The parser\<close>

text \<open>\<open>expect\<close> (lines 9 to 13): peek, compare the kind, read.\<close>

definition expect :: "TokenStream \<Rightarrow> TokenType \<Rightarrow> error + (Token \<times> TokenStream)" where
  "expect ts expectedtype =
     (case peek ts of
        Inl e \<Rightarrow> Inl e
      | Inr tok \<Rightarrow>
          if tokentype tok \<noteq> expectedtype
          then Inl (ExpectedButFound expectedtype (tokentype tok))
          else read ts)"

text \<open>The three tables of \<open>parse_expression\<close> (lines 55 to 77): two dictionaries and a set.\<close>

definition precedence :: "TokenType \<rightharpoonup> nat" where
  "precedence = [EXPONENT \<mapsto> 3, TIMES \<mapsto> 2, DIVIDE \<mapsto> 2, PLUS \<mapsto> 1, MINUS \<mapsto> 1]"

definition leftassoc :: "TokenType \<rightharpoonup> bool" where
  "leftassoc = [EXPONENT \<mapsto> False, TIMES \<mapsto> True, DIVIDE \<mapsto> True, PLUS \<mapsto> True, MINUS \<mapsto> True]"

definition operatortypes :: "TokenType set" where
  "operatortypes = {PLUS, MINUS, TIMES, DIVIDE, EXPONENT}"

text \<open>
  The stacks \<open>opstack\<close>, \<open>valstack\<close> and \<open>lparen_depths\<close> are Python lists used with
  \<open>append\<close>, \<open>pop\<close> and \<open>[-1]\<close> only. Each is a HOL list whose head is the top of the
  stack (the last element of the Python list).

  \<open>reduce\<close> (lines 158 to 168) mutates the two stacks; the model returns them.
\<close>

fun reduce :: "TokenType list \<Rightarrow> ASTNode list \<Rightarrow> error + (TokenType list \<times> ASTNode list)" where
  "reduce [] valstack = Inl MismatchedParentheses"
| "reduce (top_op # opstack) [] = Inl (ExpectedTwoOperands top_op)"
| "reduce (top_op # opstack) [v] = Inl ExpectedOperandAfterOperator"
| "reduce (top_op # opstack) (right # left # valstack) =
     Inr (opstack, BinOpNode top_op left right # valstack)"

lemma reduce_shrinks [termination_simp]:
  "reduce opstack valstack = Inr (opstack', valstack') \<Longrightarrow> length opstack' < length opstack"
  by (induction opstack valstack rule: reduce.induct) auto

text \<open>
  The inner loop of the RPAREN branch (lines 110 to 120): reduce until the LPAREN marker is
  on top; \<open>reduced\<close> records whether a reduction happened.
\<close>

function rparen_loop ::
  "TokenType list \<Rightarrow> ASTNode list \<Rightarrow> nat list \<Rightarrow> bool
     \<Rightarrow> error + (TokenType list \<times> ASTNode list \<times> nat list)" where
  "rparen_loop [] valstack lparen_depths reduced = Inl MismatchedParentheses"
| "rparen_loop (top_op # opstack) valstack lparen_depths reduced =
     (if top_op = LPAREN then
        (case lparen_depths of
           [] \<Rightarrow> Inl PyIndexError
         | d # lparen_depths' \<Rightarrow>
             if \<not> reduced then Inl ExpectedOperandAfterLparen
             else Inr (opstack, valstack, lparen_depths'))
      else
        (case reduce (top_op # opstack) valstack of
           Inl e \<Rightarrow> Inl e
         | Inr (opstack', valstack') \<Rightarrow> rparen_loop opstack' valstack' lparen_depths True))"
  by pat_completeness auto
termination
  by (relation "measure (\<lambda>(opstack, valstack, lparen_depths, reduced). length opstack)")
     (auto dest: reduce_shrinks)

text \<open>
  The inner loop of the operator branch (lines 131 to 140): reduce while the top of the
  operator stack is an operator of higher precedence, or of the same precedence and
  left-associative.
\<close>

function operator_loop ::
  "TokenType \<Rightarrow> TokenType list \<Rightarrow> ASTNode list \<Rightarrow> error + (TokenType list \<times> ASTNode list)" where
  "operator_loop incoming [] valstack = Inr ([], valstack)"
| "operator_loop incoming (top_op # opstack) valstack =
     (if top_op \<in> operatortypes then
        (case precedence top_op of
           None \<Rightarrow> Inl PyKeyError
         | Some top_prec \<Rightarrow>
            (case precedence incoming of
               None \<Rightarrow> Inl PyKeyError
             | Some inc_prec \<Rightarrow>
                 if top_prec > inc_prec then
                   (case reduce (top_op # opstack) valstack of
                      Inl e \<Rightarrow> Inl e
                    | Inr (opstack', valstack') \<Rightarrow> operator_loop incoming opstack' valstack')
                 else if top_prec = inc_prec then
                   (case leftassoc top_op of
                      None \<Rightarrow> Inl PyKeyError
                    | Some la \<Rightarrow>
                        if la then
                          (case reduce (top_op # opstack) valstack of
                             Inl e \<Rightarrow> Inl e
                           | Inr (opstack', valstack') \<Rightarrow>
                               operator_loop incoming opstack' valstack')
                        else Inr (top_op # opstack, valstack))
                 else Inr (top_op # opstack, valstack)))
      else Inr (top_op # opstack, valstack))"
  by pat_completeness auto
termination
  by (relation "measure (\<lambda>(incoming, opstack, valstack). length opstack)")
     (auto dest: reduce_shrinks)

text \<open>The loop after the main loop (lines 147 to 150): empty the operator stack.\<close>

function drain ::
  "TokenType list \<Rightarrow> ASTNode list \<Rightarrow> error + (TokenType list \<times> ASTNode list)" where
  "drain [] valstack = Inr ([], valstack)"
| "drain (top_op # opstack) valstack =
     (if top_op = LPAREN then Inl MismatchedParentheses
      else
        (case reduce (top_op # opstack) valstack of
           Inl e \<Rightarrow> Inl e
         | Inr (opstack', valstack') \<Rightarrow> drain opstack' valstack'))"
  by pat_completeness auto
termination
  by (relation "measure (\<lambda>(opstack, valstack). length opstack)")
     (auto dest: reduce_shrinks)

text \<open>
  The test of lines 87 and 97 on the token after an operand: an operator, RPAREN or EOF.
\<close>

definition follows_operand :: "Token \<Rightarrow> bool" where
  "follows_operand nxt \<longleftrightarrow>
     tokentype nxt \<in> operatortypes \<or> tokentype nxt = RPAREN \<or> tokentype nxt = EOF"

text \<open>
  The main loop of \<open>parse_expression\<close> (lines 79 to 145), with the stream and the three
  stacks as its state. It returns when the lookahead is EOF, which it leaves in the stream.
  Every other iteration reads a token, so the stream gets shorter.
\<close>

lemma read_shrinks [termination_simp]:
  "read ts = Inr (t, ts') \<Longrightarrow> length ts' < length ts"
  by (auto simp: read_def split: list.splits)

function parse_loop ::
  "TokenStream \<Rightarrow> TokenType list \<Rightarrow> ASTNode list \<Rightarrow> nat list
     \<Rightarrow> error + (TokenStream \<times> TokenType list \<times> ASTNode list \<times> nat list)" where
  "parse_loop ts opstack valstack lparen_depths =
     (case peek ts of
        Inl e \<Rightarrow> Inl e
      | Inr tok \<Rightarrow>
          if tokentype tok = EOF then Inr (ts, opstack, valstack, lparen_depths)
          else if tokentype tok = INTLIT then
            (case read ts of
               Inl e \<Rightarrow> Inl e
             | Inr (tok', ts') \<Rightarrow>
                (case intvalue tok' of
                   None \<Rightarrow> Inl MalformedINTLIT
                 | Some v \<Rightarrow>
                    (case peek ts' of
                       Inl e \<Rightarrow> Inl e
                     | Inr nxt \<Rightarrow>
                         if follows_operand nxt
                         then parse_loop ts' opstack (IntLitNode v # valstack) lparen_depths
                         else Inl ExpectedOperatorAfterIntLit)))
          else if tokentype tok = VARREF then
            (case read ts of
               Inl e \<Rightarrow> Inl e
             | Inr (tok', ts') \<Rightarrow>
                (let nm = (case lexeme tok' of
                             None \<Rightarrow> []
                           | Some s \<Rightarrow> if s \<noteq> [] then s else []);
                     valstack' = VarRefNode nm # valstack
                 in case peek ts' of
                      Inl e \<Rightarrow> Inl e
                    | Inr nxt \<Rightarrow>
                        if follows_operand nxt
                        then parse_loop ts' opstack valstack' lparen_depths
                        else Inl ExpectedOperatorAfterVarRef))
          else if tokentype tok = LPAREN then
            (case read ts of
               Inl e \<Rightarrow> Inl e
             | Inr (tok', ts') \<Rightarrow>
                 parse_loop ts' (LPAREN # opstack) valstack (length valstack # lparen_depths))
          else if tokentype tok = RPAREN then
            (case read ts of
               Inl e \<Rightarrow> Inl e
             | Inr (tok', ts') \<Rightarrow>
                (case rparen_loop opstack valstack lparen_depths False of
                   Inl e \<Rightarrow> Inl e
                 | Inr (opstack', valstack', lparen_depths') \<Rightarrow>
                     parse_loop ts' opstack' valstack' lparen_depths'))
          else if tokentype tok \<in> operatortypes then
            (case read ts of
               Inl e \<Rightarrow> Inl e
             | Inr (incoming, ts') \<Rightarrow>
                 if length valstack = 0 then Inl (ExpectedTwoOperands (tokentype incoming))
                 else if (length opstack > 0 \<and> hd opstack = LPAREN)
                       \<and> (length lparen_depths > 0 \<and> length valstack = hd lparen_depths)
                 then Inl ExpectedOperandAfterLparen
                 else
                   (case operator_loop (tokentype incoming) opstack valstack of
                      Inl e \<Rightarrow> Inl e
                    | Inr (opstack', valstack') \<Rightarrow>
                        parse_loop ts' (tokentype incoming # opstack') valstack' lparen_depths))
          else Inl (UnexpectedTokenInExpression tok))"
  by pat_completeness auto
termination
  by (relation "measure (\<lambda>(ts, opstack, valstack, lparen_depths). length ts)")
     (auto dest: read_shrinks)

declare parse_loop.simps [simp del]

text \<open>
  \<open>parse_expression\<close> (lines 50 to 155): the main loop on empty stacks, the emptying of
  the operator stack, and the test that one node is left. The model returns the node with
  the stream as the call leaves it.
\<close>

definition parse_expression :: "TokenStream \<Rightarrow> error + (ASTNode \<times> TokenStream)" where
  "parse_expression ts =
     (case parse_loop ts [] [] [] of
        Inl e \<Rightarrow> Inl e
      | Inr (ts', opstack, valstack, lparen_depths) \<Rightarrow>
         (case drain opstack valstack of
            Inl e \<Rightarrow> Inl e
          | Inr (opstack', valstack') \<Rightarrow>
              if length valstack' \<noteq> 1 then Inl DidNotReduceToOne
              else Inr (hd valstack', ts')))"

text \<open>
  \<open>parse\<close> (lines 16 to 47). In the first two branches the token read is the token \<open>t\<close>
  peeked before; the result of that \<open>read\<close> is dropped, as in the source.
\<close>

definition parse :: "TokenStream \<Rightarrow> error + (ASTNode \<times> TokenStream)" where
  "parse ts =
     (case peek ts of
        Inl e \<Rightarrow> Inl e
      | Inr t \<Rightarrow>
          if tokentype t = PRINT then
            (case read ts of
               Inl e \<Rightarrow> Inl e
             | Inr (_, ts1) \<Rightarrow>
                (case name t of
                   None \<Rightarrow> Inl MalformedPRINT
                 | Some n \<Rightarrow>
                    (case expect ts1 EOF of
                       Inl e \<Rightarrow> Inl e
                     | Inr (_, ts2) \<Rightarrow> Inr (PrintNode n, ts2))))
          else if tokentype t = INTDEC then
            (case read ts of
               Inl e \<Rightarrow> Inl e
             | Inr (_, ts1) \<Rightarrow>
                (case name t of
                   None \<Rightarrow> Inl MalformedINTDEC
                 | Some n \<Rightarrow>
                    (case expect ts1 EOF of
                       Inl e \<Rightarrow> Inl e
                     | Inr (_, ts2) \<Rightarrow> Inr (IntDclNode n, ts2))))
          else if tokentype t = VARREF then
            (case read ts of
               Inl e \<Rightarrow> Inl e
             | Inr (lhs, ts1) \<Rightarrow>
                (case expect ts1 ASSIGN of
                   Inl e \<Rightarrow> Inl e
                 | Inr (_, ts2) \<Rightarrow>
                    (case parse_expression ts2 of
                       Inl e \<Rightarrow> Inl e
                     | Inr (rhs, ts3) \<Rightarrow>
                        (case lexeme lhs of
                           None \<Rightarrow> Inl MalformedVARREF_LHS
                         | Some lx \<Rightarrow>
                            (case expect ts3 EOF of
                               Inl e \<Rightarrow> Inl e
                             | Inr (_, ts4) \<Rightarrow> Inr (AssignNode lx rhs, ts4))))))
          else Inl (UnexpectedStatementStart (tokentype t)))"

text \<open>Tokens as a lexer builds them: a kind with its own payload and nothing else.\<close>

definition token :: "TokenType \<Rightarrow> Token" where
  "token k = \<lparr>tokentype = k, name = None, lexeme = None, intvalue = None\<rparr>"

definition intlit :: "int \<Rightarrow> Token" where
  "intlit v = \<lparr>tokentype = INTLIT, name = None, lexeme = None, intvalue = Some v\<rparr>"

definition varref :: "string \<Rightarrow> Token" where
  "varref s = \<lparr>tokentype = VARREF, name = None, lexeme = Some s, intvalue = None\<rparr>"



section \<open>The calls of \<open>reduce\<close>, recorded\<close>

text \<open>
  To speak about the calls of \<open>reduce\<close> that \<open>parse_expression\<close> makes, the four loops
  are written a second time with one more variable, \<open>calls\<close>, which is not in the source:
  the list of the argument pairs (operator stack, value stack) of the calls of \<open>reduce\<close>
  made so far, in order. Each call site appends its arguments before it calls. Nothing else
  differs from the loops above, and the first component of each result is proved below to
  be the result of the loop above.
\<close>

type_synonym reduce_call = "TokenType list \<times> ASTNode list"

function rparen_loop_traced ::
  "TokenType list \<Rightarrow> ASTNode list \<Rightarrow> nat list \<Rightarrow> bool \<Rightarrow> reduce_call list
     \<Rightarrow> (error + (TokenType list \<times> ASTNode list \<times> nat list)) \<times> reduce_call list" where
  "rparen_loop_traced [] valstack lparen_depths reduced calls =
     (Inl MismatchedParentheses, calls)"
| "rparen_loop_traced (top_op # opstack) valstack lparen_depths reduced calls =
     (if top_op = LPAREN then
        (case lparen_depths of
           [] \<Rightarrow> (Inl PyIndexError, calls)
         | d # lparen_depths' \<Rightarrow>
             if \<not> reduced then (Inl ExpectedOperandAfterLparen, calls)
             else (Inr (opstack, valstack, lparen_depths'), calls))
      else
        (let calls' = calls @ [(top_op # opstack, valstack)]
         in case reduce (top_op # opstack) valstack of
              Inl e \<Rightarrow> (Inl e, calls')
            | Inr (opstack', valstack') \<Rightarrow>
                rparen_loop_traced opstack' valstack' lparen_depths True calls'))"
  by pat_completeness auto
termination
  by (relation "measure (\<lambda>(opstack, valstack, lparen_depths, reduced, calls). length opstack)")
     (auto dest: reduce_shrinks)

function operator_loop_traced ::
  "TokenType \<Rightarrow> TokenType list \<Rightarrow> ASTNode list \<Rightarrow> reduce_call list
     \<Rightarrow> (error + (TokenType list \<times> ASTNode list)) \<times> reduce_call list" where
  "operator_loop_traced incoming [] valstack calls = (Inr ([], valstack), calls)"
| "operator_loop_traced incoming (top_op # opstack) valstack calls =
     (if top_op \<in> operatortypes then
        (case precedence top_op of
           None \<Rightarrow> (Inl PyKeyError, calls)
         | Some top_prec \<Rightarrow>
            (case precedence incoming of
               None \<Rightarrow> (Inl PyKeyError, calls)
             | Some inc_prec \<Rightarrow>
                 if top_prec > inc_prec then
                   (let calls' = calls @ [(top_op # opstack, valstack)]
                    in case reduce (top_op # opstack) valstack of
                         Inl e \<Rightarrow> (Inl e, calls')
                       | Inr (opstack', valstack') \<Rightarrow>
                           operator_loop_traced incoming opstack' valstack' calls')
                 else if top_prec = inc_prec then
                   (case leftassoc top_op of
                      None \<Rightarrow> (Inl PyKeyError, calls)
                    | Some la \<Rightarrow>
                        if la then
                          (let calls' = calls @ [(top_op # opstack, valstack)]
                           in case reduce (top_op # opstack) valstack of
                                Inl e \<Rightarrow> (Inl e, calls')
                              | Inr (opstack', valstack') \<Rightarrow>
                                  operator_loop_traced incoming opstack' valstack' calls')
                        else (Inr (top_op # opstack, valstack), calls))
                 else (Inr (top_op # opstack, valstack), calls)))
      else (Inr (top_op # opstack, valstack), calls))"
  by pat_completeness auto
termination
  by (relation "measure (\<lambda>(incoming, opstack, valstack, calls). length opstack)")
     (auto dest: reduce_shrinks)

function drain_traced ::
  "TokenType list \<Rightarrow> ASTNode list \<Rightarrow> reduce_call list
     \<Rightarrow> (error + (TokenType list \<times> ASTNode list)) \<times> reduce_call list" where
  "drain_traced [] valstack calls = (Inr ([], valstack), calls)"
| "drain_traced (top_op # opstack) valstack calls =
     (if top_op = LPAREN then (Inl MismatchedParentheses, calls)
      else
        (let calls' = calls @ [(top_op # opstack, valstack)]
         in case reduce (top_op # opstack) valstack of
              Inl e \<Rightarrow> (Inl e, calls')
            | Inr (opstack', valstack') \<Rightarrow> drain_traced opstack' valstack' calls'))"
  by pat_completeness auto
termination
  by (relation "measure (\<lambda>(opstack, valstack, calls). length opstack)")
     (auto dest: reduce_shrinks)

function parse_loop_traced ::
  "TokenStream \<Rightarrow> TokenType list \<Rightarrow> ASTNode list \<Rightarrow> nat list \<Rightarrow> reduce_call list
     \<Rightarrow> (error + (TokenStream \<times> TokenType list \<times> ASTNode list \<times> nat list)) \<times> reduce_call list" where
  "parse_loop_traced ts opstack valstack lparen_depths calls =
     (case peek ts of
        Inl e \<Rightarrow> (Inl e, calls)
      | Inr tok \<Rightarrow>
          if tokentype tok = EOF then (Inr (ts, opstack, valstack, lparen_depths), calls)
          else if tokentype tok = INTLIT then
            (case read ts of
               Inl e \<Rightarrow> (Inl e, calls)
             | Inr (tok', ts') \<Rightarrow>
                (case intvalue tok' of
                   None \<Rightarrow> (Inl MalformedINTLIT, calls)
                 | Some v \<Rightarrow>
                    (case peek ts' of
                       Inl e \<Rightarrow> (Inl e, calls)
                     | Inr nxt \<Rightarrow>
                         if follows_operand nxt
                         then parse_loop_traced ts' opstack (IntLitNode v # valstack)
                                lparen_depths calls
                         else (Inl ExpectedOperatorAfterIntLit, calls))))
          else if tokentype tok = VARREF then
            (case read ts of
               Inl e \<Rightarrow> (Inl e, calls)
             | Inr (tok', ts') \<Rightarrow>
                (let nm = (case lexeme tok' of
                             None \<Rightarrow> []
                           | Some s \<Rightarrow> if s \<noteq> [] then s else []);
                     valstack' = VarRefNode nm # valstack
                 in case peek ts' of
                      Inl e \<Rightarrow> (Inl e, calls)
                    | Inr nxt \<Rightarrow>
                        if follows_operand nxt
                        then parse_loop_traced ts' opstack valstack' lparen_depths calls
                        else (Inl ExpectedOperatorAfterVarRef, calls)))
          else if tokentype tok = LPAREN then
            (case read ts of
               Inl e \<Rightarrow> (Inl e, calls)
             | Inr (tok', ts') \<Rightarrow>
                 parse_loop_traced ts' (LPAREN # opstack) valstack
                   (length valstack # lparen_depths) calls)
          else if tokentype tok = RPAREN then
            (case read ts of
               Inl e \<Rightarrow> (Inl e, calls)
             | Inr (tok', ts') \<Rightarrow>
                (case rparen_loop_traced opstack valstack lparen_depths False calls of
                   (Inl e, calls') \<Rightarrow> (Inl e, calls')
                 | (Inr (opstack', valstack', lparen_depths'), calls') \<Rightarrow>
                     parse_loop_traced ts' opstack' valstack' lparen_depths' calls'))
          else if tokentype tok \<in> operatortypes then
            (case read ts of
               Inl e \<Rightarrow> (Inl e, calls)
             | Inr (incoming, ts') \<Rightarrow>
                 if length valstack = 0
                 then (Inl (ExpectedTwoOperands (tokentype incoming)), calls)
                 else if (length opstack > 0 \<and> hd opstack = LPAREN)
                       \<and> (length lparen_depths > 0 \<and> length valstack = hd lparen_depths)
                 then (Inl ExpectedOperandAfterLparen, calls)
                 else
                   (case operator_loop_traced (tokentype incoming) opstack valstack calls of
                      (Inl e, calls') \<Rightarrow> (Inl e, calls')
                    | (Inr (opstack', valstack'), calls') \<Rightarrow>
                        parse_loop_traced ts' (tokentype incoming # opstack') valstack'
                          lparen_depths calls'))
          else (Inl (UnexpectedTokenInExpression tok), calls))"
  by pat_completeness auto
termination
  by (relation "measure (\<lambda>(ts, opstack, valstack, lparen_depths, calls). length ts)")
     (auto dest: read_shrinks)

declare parse_loop_traced.simps [simp del]

definition parse_expression_traced ::
  "TokenStream \<Rightarrow> (error + (ASTNode \<times> TokenStream)) \<times> reduce_call list" where
  "parse_expression_traced ts =
     (case parse_loop_traced ts [] [] [] [] of
        (Inl e, calls) \<Rightarrow> (Inl e, calls)
      | (Inr (ts', opstack, valstack, lparen_depths), calls) \<Rightarrow>
         (case drain_traced opstack valstack calls of
            (Inl e, calls') \<Rightarrow> (Inl e, calls')
          | (Inr (opstack', valstack'), calls') \<Rightarrow>
              if length valstack' \<noteq> 1 then (Inl DidNotReduceToOne, calls')
              else (Inr (hd valstack', ts'), calls')))"

text \<open>
  The invariants of the two stacks: the operator stack holds operator kinds and LPAREN
  markers only, and every \<open>BinOpNode\<close> in a tree carries an operator kind.
\<close>

fun binops_ok :: "ASTNode \<Rightarrow> bool" where
  "binops_ok (BinOpNode k left right) \<longleftrightarrow> k \<in> operatortypes \<and> binops_ok left \<and> binops_ok right"
| "binops_ok (AssignNode x rhs) \<longleftrightarrow> binops_ok rhs"
| "binops_ok _ \<longleftrightarrow> True"

definition opstack_ok :: "TokenType list \<Rightarrow> bool" where
  "opstack_ok opstack \<longleftrightarrow> list_all (\<lambda>k. k = LPAREN \<or> k \<in> operatortypes) opstack"

definition valstack_ok :: "ASTNode list \<Rightarrow> bool" where
  "valstack_ok valstack \<longleftrightarrow> list_all binops_ok valstack"

definition reduce_call_ok :: "reduce_call \<Rightarrow> bool" where
  "reduce_call_ok call \<longleftrightarrow>
     fst call \<noteq> [] \<and> hd (fst call) \<in> operatortypes \<and> valstack_ok (snd call)"

section \<open>One iteration of the main loop, by the kind of the lookahead\<close>

lemma peek_Nil: "peek [] = Inl StreamExhausted"
  by (simp add: peek_def)

lemma peek_Cons: "peek (t # ts) = Inr t"
  by (simp add: peek_def)

lemma read_Nil: "read [] = Inl StreamExhausted"
  by (simp add: read_def)

lemma read_Cons: "read (t # ts) = Inr (t, ts)"
  by (simp add: read_def)

lemma parse_loop_Nil: "parse_loop [] opstack valstack lparen_depths = Inl StreamExhausted"
  by (subst parse_loop.simps) (simp add: peek_Nil)

lemma parse_loop_EOF:
  "tokentype t = EOF \<Longrightarrow>
   parse_loop (t # ts) opstack valstack lparen_depths = Inr (t # ts, opstack, valstack, lparen_depths)"
  by (subst parse_loop.simps) (simp add: peek_Cons)

lemma parse_loop_INTLIT:
  "tokentype t = INTLIT \<Longrightarrow>
   parse_loop (t # ts) opstack valstack lparen_depths =
     (case intvalue t of
        None \<Rightarrow> Inl MalformedINTLIT
      | Some v \<Rightarrow>
         (case ts of
            [] \<Rightarrow> Inl StreamExhausted
          | nxt # _ \<Rightarrow>
              if follows_operand nxt
              then parse_loop ts opstack (IntLitNode v # valstack) lparen_depths
              else Inl ExpectedOperatorAfterIntLit))"
  by (subst parse_loop.simps) (simp add: peek_def read_Cons split: option.splits list.splits)

lemma parse_loop_VARREF:
  "tokentype t = VARREF \<Longrightarrow>
   parse_loop (t # ts) opstack valstack lparen_depths =
     (case ts of
        [] \<Rightarrow> Inl StreamExhausted
      | nxt # _ \<Rightarrow>
          if follows_operand nxt
          then parse_loop ts opstack
                 (VarRefNode (case lexeme t of None \<Rightarrow> [] | Some s \<Rightarrow> s) # valstack) lparen_depths
          else Inl ExpectedOperatorAfterVarRef)"
  by (subst parse_loop.simps) (simp add: peek_def read_Cons split: option.splits list.splits)

lemma parse_loop_LPAREN:
  "tokentype t = LPAREN \<Longrightarrow>
   parse_loop (t # ts) opstack valstack lparen_depths =
     parse_loop ts (LPAREN # opstack) valstack (length valstack # lparen_depths)"
  by (subst parse_loop.simps) (simp add: peek_Cons read_Cons)

lemma parse_loop_RPAREN:
  "tokentype t = RPAREN \<Longrightarrow>
   parse_loop (t # ts) opstack valstack lparen_depths =
     (case rparen_loop opstack valstack lparen_depths False of
        Inl e \<Rightarrow> Inl e
      | Inr (opstack', valstack', lparen_depths') \<Rightarrow>
          parse_loop ts opstack' valstack' lparen_depths')"
  by (subst parse_loop.simps) (simp add: peek_Cons read_Cons)

lemma parse_loop_operator:
  "tokentype t \<in> operatortypes \<Longrightarrow>
   parse_loop (t # ts) opstack valstack lparen_depths =
     (if valstack = [] then Inl (ExpectedTwoOperands (tokentype t))
      else if (opstack \<noteq> [] \<and> hd opstack = LPAREN)
            \<and> (lparen_depths \<noteq> [] \<and> length valstack = hd lparen_depths)
      then Inl ExpectedOperandAfterLparen
      else
        (case operator_loop (tokentype t) opstack valstack of
           Inl e \<Rightarrow> Inl e
         | Inr (opstack', valstack') \<Rightarrow>
             parse_loop ts (tokentype t # opstack') valstack' lparen_depths))"
  by (subst parse_loop.simps) (auto simp add: peek_Cons read_Cons operatortypes_def)

lemma parse_loop_other:
  "tokentype t \<notin> operatortypes \<Longrightarrow> tokentype t \<notin> {EOF, INTLIT, VARREF, LPAREN, RPAREN} \<Longrightarrow>
   parse_loop (t # ts) opstack valstack lparen_depths = Inl (UnexpectedTokenInExpression t)"
  by (subst parse_loop.simps) (simp add: peek_Cons)

lemma tokentype_simps:
  "tokentype (token k) = k" "tokentype (intlit v) = INTLIT" "tokentype (varref s) = VARREF"
  "intvalue (intlit v) = Some v" "lexeme (varref s) = Some s" "lexeme (token k) = None"
  "intvalue (token k) = None" "name (token k) = None"
  by (simp_all add: token_def intlit_def varref_def)

lemma precedence_simps:
  "precedence PLUS = Some 1" "precedence MINUS = Some 1" "precedence TIMES = Some 2"
  "precedence DIVIDE = Some 2" "precedence EXPONENT = Some 3"
  "precedence PRINT = None" "precedence INTDEC = None" "precedence VARREF = None"
  "precedence ASSIGN = None" "precedence INTLIT = None" "precedence LPAREN = None"
  "precedence RPAREN = None" "precedence EOF = None"
  by (simp_all add: precedence_def)

lemma leftassoc_simps:
  "leftassoc PLUS = Some True" "leftassoc MINUS = Some True" "leftassoc TIMES = Some True"
  "leftassoc DIVIDE = Some True" "leftassoc EXPONENT = Some False"
  by (simp_all add: leftassoc_def)

lemma precedence_Some_operator: "precedence k = Some p \<Longrightarrow> k \<in> operatortypes"
  by (cases k) (simp_all add: precedence_simps operatortypes_def)

lemmas eval_simps = parse_loop_EOF parse_loop_INTLIT parse_loop_VARREF parse_loop_LPAREN
  parse_loop_RPAREN parse_loop_operator parse_loop_Nil tokentype_simps precedence_simps
  leftassoc_simps follows_operand_def parse_expression_def

lemmas parse_simps = parse_def expect_def peek_Cons read_Cons peek_Nil read_Nil

section \<open>The main loop as a whole\<close>

lemma token_kind_cases:
  obtains "k = EOF" | "k = INTLIT" | "k = VARREF" | "k = LPAREN" | "k = RPAREN"
  | "k \<in> operatortypes"
  | "k \<notin> operatortypes" "k \<notin> {EOF, INTLIT, VARREF, LPAREN, RPAREN}"
  by blast

text \<open>No failure of the expression parser is the failure of \<open>expect\<close>.\<close>

lemma reduce_error: "reduce opstack valstack \<noteq> Inl (ExpectedButFound k1 k2)"
  by (induction opstack valstack rule: reduce.induct) auto

lemma rparen_loop_error:
  "rparen_loop opstack valstack lparen_depths reduced \<noteq> Inl (ExpectedButFound k1 k2)"
  by (induction opstack valstack lparen_depths reduced rule: rparen_loop.induct)
     (auto simp: reduce_error split: list.splits sum.splits)

lemma operator_loop_error:
  "operator_loop incoming opstack valstack \<noteq> Inl (ExpectedButFound k1 k2)"
  by (induction incoming opstack valstack rule: operator_loop.induct)
     (auto simp: reduce_error split: option.splits sum.splits)


text \<open>An iteration whose lookahead is not EOF fails or goes on with the rest of the stream.\<close>

lemma parse_loop_iteration:
  assumes "tokentype t \<noteq> EOF"
  shows "(\<exists>e. parse_loop (t # ts) opstack valstack lparen_depths = Inl e
               \<and> e \<noteq> ExpectedButFound k1 k2)
       \<or> (\<exists>opstack' valstack' lparen_depths'.
             parse_loop (t # ts) opstack valstack lparen_depths
               = parse_loop ts opstack' valstack' lparen_depths')"
proof (cases "tokentype t \<in> operatortypes")
  case True
  then show ?thesis
    by (auto simp: parse_loop_operator operator_loop_error split: sum.splits)
next
  case False
  note notop = this
  show ?thesis
  proof (cases "tokentype t \<in> {INTLIT, VARREF, LPAREN, RPAREN}")
    case True
    then consider "tokentype t = INTLIT" | "tokentype t = VARREF"
      | "tokentype t = LPAREN" | "tokentype t = RPAREN" by auto
    then show ?thesis
    proof cases
      case 1 then show ?thesis
        by (auto simp: parse_loop_INTLIT split: option.splits list.splits)
    next
      case 2 then show ?thesis
        by (auto simp: parse_loop_VARREF split: option.splits list.splits)
    next
      case 3 then show ?thesis
        by (auto simp: parse_loop_LPAREN)
    next
      case 4 then show ?thesis
        by (auto simp: parse_loop_RPAREN rparen_loop_error split: sum.splits)
    qed
  next
    case False
    with notop assms show ?thesis
      by (simp add: parse_loop_other)
  qed
qed




lemma parse_loop_fails_before_EOF:
  assumes "\<forall>x \<in> set pre. tokentype x \<noteq> EOF"
    and "\<And>opstack valstack lparen_depths. \<exists>e. parse_loop ts opstack valstack lparen_depths = Inl e"
  shows "\<exists>e. parse_loop (pre @ ts) opstack valstack lparen_depths = Inl e"
  using assms(1)
proof (induction pre arbitrary: opstack valstack lparen_depths)
  case Nil
  then show ?case using assms(2) by simp
next
  case (Cons t pre)
  then have "tokentype t \<noteq> EOF" by simp
  from parse_loop_iteration [OF this, of "pre @ ts" opstack valstack lparen_depths EOF EOF]
  show ?case using Cons by fastforce
qed


text \<open>An iteration looks at the rest of the stream through the kind of its first token only.\<close>

lemma parse_loop_cong_tail:
  assumes "tokentype t \<noteq> EOF"
    and "tokentype x1 = tokentype x2"
    and "\<And>opstack valstack lparen_depths.
           parse_loop (x1 # r1) opstack valstack lparen_depths
             = parse_loop (x2 # r2) opstack valstack lparen_depths"
  shows "parse_loop (t # x1 # r1) opstack valstack lparen_depths
           = parse_loop (t # x2 # r2) opstack valstack lparen_depths"
proof (cases "tokentype t \<in> operatortypes")
  case True
  then show ?thesis
    using assms by (auto simp: parse_loop_operator split: sum.splits)
next
  case False
  note notop = this
  show ?thesis
  proof (cases "tokentype t \<in> {INTLIT, VARREF, LPAREN, RPAREN}")
    case True
    then consider "tokentype t = INTLIT" | "tokentype t = VARREF"
      | "tokentype t = LPAREN" | "tokentype t = RPAREN" by auto
    then show ?thesis
    proof cases
      case 1 then show ?thesis
        using assms by (simp add: parse_loop_INTLIT follows_operand_def split: option.splits)
    next
      case 2 then show ?thesis
        using assms by (simp add: parse_loop_VARREF follows_operand_def)
    next
      case 3 then show ?thesis
        using assms by (simp add: parse_loop_LPAREN)
    next
      case 4 then show ?thesis
        using assms by (auto simp: parse_loop_RPAREN split: sum.splits)
    qed
  next
    case False
    with notop assms show ?thesis
      by (simp add: parse_loop_other)
  qed
qed

lemma parse_loop_blank_lexeme_head:
  assumes "tokentype t = VARREF" and "lexeme t = None"
  shows "parse_loop (t # rest) opstack valstack lparen_depths
           = parse_loop (t\<lparr>lexeme := Some []\<rparr> # rest) opstack valstack lparen_depths"
  using assms by (simp add: parse_loop_VARREF split: list.splits)

lemma parse_loop_blank_lexeme:
  assumes "tokentype t = VARREF" and "lexeme t = None"
    and "\<forall>x \<in> set pre. tokentype x \<noteq> EOF"
  shows "parse_loop (pre @ t # rest) opstack valstack lparen_depths
           = parse_loop (pre @ t\<lparr>lexeme := Some []\<rparr> # rest) opstack valstack lparen_depths"
  using assms(3)
proof (induction pre arbitrary: opstack valstack lparen_depths)
  case Nil
  then show ?case using parse_loop_blank_lexeme_head [OF assms(1,2)] by simp
next
  case (Cons p pre)
  then have p: "tokentype p \<noteq> EOF" and IH: "\<And>os vs ds.
      parse_loop (pre @ t # rest) os vs ds = parse_loop (pre @ t\<lparr>lexeme := Some []\<rparr> # rest) os vs ds"
    by simp_all
  show ?case
  proof (cases pre)
    case Nil
    with IH parse_loop_cong_tail [OF p, of t "t\<lparr>lexeme := Some []\<rparr>" rest rest]
    show ?thesis by simp
  next
    case (Cons q qs)
    with IH parse_loop_cong_tail [OF p, of q q "qs @ t # rest" "qs @ t\<lparr>lexeme := Some []\<rparr> # rest"]
    show ?thesis by simp
  qed
qed

lemma parse_VARREF_fails_without_lexeme:
  assumes "tokentype t = VARREF" and "lexeme t = None"
  shows "\<exists>e. parse (t # rest) = Inl e"
  using assms by (auto simp: parse_simps split: sum.splits list.splits)

section \<open>The recorded loops and the loops of the parser\<close>

lemma rparen_loop_traced_fst:
  "fst (rparen_loop_traced opstack valstack lparen_depths reduced calls)
     = rparen_loop opstack valstack lparen_depths reduced"
  by (induction opstack valstack lparen_depths reduced calls rule: rparen_loop_traced.induct)
     (auto simp: Let_def split: list.splits sum.splits)

lemma operator_loop_traced_fst:
  "fst (operator_loop_traced incoming opstack valstack calls)
     = operator_loop incoming opstack valstack"
  by (induction incoming opstack valstack calls rule: operator_loop_traced.induct)
     (auto simp: Let_def split: option.splits sum.splits)

lemma drain_traced_fst:
  "fst (drain_traced opstack valstack calls) = drain opstack valstack"
  by (induction opstack valstack calls rule: drain_traced.induct)
     (auto simp: Let_def split: sum.splits)

lemma parse_loop_traced_Nil:
  "parse_loop_traced [] opstack valstack lparen_depths calls = (Inl StreamExhausted, calls)"
  by (subst parse_loop_traced.simps) (simp add: peek_Nil)

lemma parse_loop_traced_EOF:
  "tokentype t = EOF \<Longrightarrow>
   parse_loop_traced (t # ts) opstack valstack lparen_depths calls
     = (Inr (t # ts, opstack, valstack, lparen_depths), calls)"
  by (subst parse_loop_traced.simps) (simp add: peek_Cons)

lemma parse_loop_traced_INTLIT:
  "tokentype t = INTLIT \<Longrightarrow>
   parse_loop_traced (t # ts) opstack valstack lparen_depths calls =
     (case intvalue t of
        None \<Rightarrow> (Inl MalformedINTLIT, calls)
      | Some v \<Rightarrow>
         (case ts of
            [] \<Rightarrow> (Inl StreamExhausted, calls)
          | nxt # _ \<Rightarrow>
              if follows_operand nxt
              then parse_loop_traced ts opstack (IntLitNode v # valstack) lparen_depths calls
              else (Inl ExpectedOperatorAfterIntLit, calls)))"
  by (subst parse_loop_traced.simps)
     (simp add: peek_def read_Cons split: option.splits list.splits)

lemma parse_loop_traced_VARREF:
  "tokentype t = VARREF \<Longrightarrow>
   parse_loop_traced (t # ts) opstack valstack lparen_depths calls =
     (case ts of
        [] \<Rightarrow> (Inl StreamExhausted, calls)
      | nxt # _ \<Rightarrow>
          if follows_operand nxt
          then parse_loop_traced ts opstack
                 (VarRefNode (case lexeme t of None \<Rightarrow> [] | Some s \<Rightarrow> s) # valstack)
                 lparen_depths calls
          else (Inl ExpectedOperatorAfterVarRef, calls))"
  by (subst parse_loop_traced.simps)
     (simp add: peek_def read_Cons split: option.splits list.splits)

lemma parse_loop_traced_LPAREN:
  "tokentype t = LPAREN \<Longrightarrow>
   parse_loop_traced (t # ts) opstack valstack lparen_depths calls =
     parse_loop_traced ts (LPAREN # opstack) valstack (length valstack # lparen_depths) calls"
  by (subst parse_loop_traced.simps) (simp add: peek_Cons read_Cons)

lemma parse_loop_traced_RPAREN:
  "tokentype t = RPAREN \<Longrightarrow>
   parse_loop_traced (t # ts) opstack valstack lparen_depths calls =
     (case rparen_loop_traced opstack valstack lparen_depths False calls of
        (Inl e, calls') \<Rightarrow> (Inl e, calls')
      | (Inr (opstack', valstack', lparen_depths'), calls') \<Rightarrow>
          parse_loop_traced ts opstack' valstack' lparen_depths' calls')"
  by (subst parse_loop_traced.simps) (simp add: peek_Cons read_Cons)

lemma parse_loop_traced_operator:
  "tokentype t \<in> operatortypes \<Longrightarrow>
   parse_loop_traced (t # ts) opstack valstack lparen_depths calls =
     (if valstack = [] then (Inl (ExpectedTwoOperands (tokentype t)), calls)
      else if (opstack \<noteq> [] \<and> hd opstack = LPAREN)
            \<and> (lparen_depths \<noteq> [] \<and> length valstack = hd lparen_depths)
      then (Inl ExpectedOperandAfterLparen, calls)
      else
        (case operator_loop_traced (tokentype t) opstack valstack calls of
           (Inl e, calls') \<Rightarrow> (Inl e, calls')
         | (Inr (opstack', valstack'), calls') \<Rightarrow>
             parse_loop_traced ts (tokentype t # opstack') valstack' lparen_depths calls'))"
  by (subst parse_loop_traced.simps) (auto simp add: peek_Cons read_Cons operatortypes_def)

lemma parse_loop_traced_other:
  "tokentype t \<notin> operatortypes \<Longrightarrow> tokentype t \<notin> {EOF, INTLIT, VARREF, LPAREN, RPAREN} \<Longrightarrow>
   parse_loop_traced (t # ts) opstack valstack lparen_depths calls
     = (Inl (UnexpectedTokenInExpression t), calls)"
  by (subst parse_loop_traced.simps) (simp add: peek_Cons)

lemma parse_loop_traced_fst:
  "fst (parse_loop_traced ts opstack valstack lparen_depths calls)
     = parse_loop ts opstack valstack lparen_depths"
proof (induction ts arbitrary: opstack valstack lparen_depths calls)
  case Nil
  show ?case by (simp add: parse_loop_traced_Nil parse_loop_Nil)
next
  case (Cons t ts)
  show ?case
  proof (cases "tokentype t" rule: token_kind_cases)
    case 1 then show ?thesis by (simp add: parse_loop_traced_EOF parse_loop_EOF)
  next
    case 2 then show ?thesis
      by (simp add: parse_loop_traced_INTLIT parse_loop_INTLIT Cons.IH
               split: option.splits list.splits)
  next
    case 3 then show ?thesis
      by (simp add: parse_loop_traced_VARREF parse_loop_VARREF Cons.IH split: list.splits)
  next
    case 4 then show ?thesis
      by (simp add: parse_loop_traced_LPAREN parse_loop_LPAREN Cons.IH)
  next
    case 5
    obtain res calls' where r: "rparen_loop_traced opstack valstack lparen_depths False calls
        = (res, calls')" by (cases "rparen_loop_traced opstack valstack lparen_depths False calls")
    with rparen_loop_traced_fst [of opstack valstack lparen_depths False calls]
    have "rparen_loop opstack valstack lparen_depths False = res" by simp
    with 5 r show ?thesis
      by (auto simp: parse_loop_traced_RPAREN parse_loop_RPAREN Cons.IH split: sum.splits)
  next
    case 6
    obtain res calls' where r: "operator_loop_traced (tokentype t) opstack valstack calls
        = (res, calls')" by (cases "operator_loop_traced (tokentype t) opstack valstack calls")
    with operator_loop_traced_fst [of "tokentype t" opstack valstack calls]
    have "operator_loop (tokentype t) opstack valstack = res" by simp
    with 6 r show ?thesis
      by (auto simp: parse_loop_traced_operator parse_loop_operator Cons.IH split: sum.splits)
  next
    case 7 then show ?thesis by (simp add: parse_loop_traced_other parse_loop_other)
  qed
qed

lemma parse_expression_traced_fst: "fst (parse_expression_traced ts) = parse_expression ts"
proof -
  obtain res calls where r: "parse_loop_traced ts [] [] [] [] = (res, calls)"
    by (cases "parse_loop_traced ts [] [] [] []")
  with parse_loop_traced_fst [of ts "[]" "[]" "[]" "[]"]
  have p: "parse_loop ts [] [] [] = res" by simp
  show ?thesis
  proof (cases res)
    case (Inl e)
    with r p show ?thesis by (simp add: parse_expression_traced_def parse_expression_def)
  next
    case (Inr st)
    obtain ts' opstack valstack lparen_depths where
      st: "st = (ts', opstack, valstack, lparen_depths)" by (cases st)
    obtain res' calls' where d: "drain_traced opstack valstack calls = (res', calls')"
      by (cases "drain_traced opstack valstack calls")
    with drain_traced_fst [of opstack valstack calls]
    have "drain opstack valstack = res'" by simp
    with Inr st r p d show ?thesis
      by (auto simp: parse_expression_traced_def parse_expression_def split: sum.splits)
  qed
qed

lemma reduce_keeps_ok:
  assumes "reduce (k # opstack) valstack = Inr (opstack', valstack')"
    and "k \<in> operatortypes" and "opstack_ok (k # opstack)" and "valstack_ok valstack"
  shows "opstack_ok opstack' \<and> valstack_ok valstack'"
  using assms
  by (cases "(k # opstack, valstack)" rule: reduce.cases)
     (auto simp: opstack_ok_def valstack_ok_def)

lemma not_LPAREN_operator:
  "opstack_ok (k # opstack) \<Longrightarrow> k \<noteq> LPAREN \<Longrightarrow> k \<in> operatortypes"
  by (simp add: opstack_ok_def)

lemma rparen_loop_traced_ok:
  assumes "rparen_loop_traced opstack valstack lparen_depths reduced calls = (res, calls')"
    and "opstack_ok opstack" and "valstack_ok valstack" and "(\<forall>call \<in> set calls. reduce_call_ok call)"
  shows "(\<forall>call \<in> set calls'. reduce_call_ok call)
       \<and> (\<forall>opstack' valstack' lparen_depths'.
             res = Inr (opstack', valstack', lparen_depths')
               \<longrightarrow> opstack_ok opstack' \<and> valstack_ok valstack')"
  using assms
proof (induction opstack valstack lparen_depths reduced calls rule: rparen_loop_traced.induct)
  case (1 valstack lparen_depths reduced calls)
  then show ?case by auto
next
  case (2 top_op opstack valstack lparen_depths reduced calls)
  show ?case
  proof (cases "top_op = LPAREN")
    case True
    with "2.prems" show ?thesis
      by (auto simp: opstack_ok_def split: list.splits if_splits)
  next
    case False
    with "2.prems" have op: "top_op \<in> operatortypes"
      by (simp add: not_LPAREN_operator)
    let ?calls = "calls @ [(top_op # opstack, valstack)]"
    have calls: "\<forall>call \<in> set ?calls. reduce_call_ok call"
      using "2.prems" op by (simp add: reduce_call_ok_def)
    show ?thesis
    proof (cases "reduce (top_op # opstack) valstack")
      case (Inl e)
      with False "2.prems" calls show ?thesis by (auto simp: Let_def)
    next
      case (Inr r)
      obtain opstack' valstack' where r: "r = (opstack', valstack')" by (cases r)
      from reduce_keeps_ok [OF Inr [unfolded r] op] "2.prems"
      have ok: "opstack_ok opstack'" "valstack_ok valstack'" by simp_all
      from "2.prems"(1) False Inr r
      have "rparen_loop_traced opstack' valstack' lparen_depths True ?calls = (res, calls')"
        by (simp add: Let_def)
      from "2.IH" [OF False refl Inr [unfolded r] refl this ok calls]
      show ?thesis .
    qed
  qed
qed

lemma operator_loop_traced_ok:
  assumes "operator_loop_traced incoming opstack valstack calls = (res, calls')"
    and "opstack_ok opstack" and "valstack_ok valstack"
    and "\<forall>call \<in> set calls. reduce_call_ok call"
  shows "(\<forall>call \<in> set calls'. reduce_call_ok call)
       \<and> (\<forall>opstack' valstack'. res = Inr (opstack', valstack')
             \<longrightarrow> opstack_ok opstack' \<and> valstack_ok valstack')"
  using assms
proof (induction incoming opstack valstack calls rule: operator_loop_traced.induct)
  case (1 incoming valstack calls)
  then show ?case by auto
next
  case (2 incoming top_op opstack valstack calls)
  let ?calls = "calls @ [(top_op # opstack, valstack)]"
  show ?case
  proof (cases "operator_loop_traced incoming (top_op # opstack) valstack calls
                  = (Inr (top_op # opstack, valstack), calls)
                \<or> (\<exists>e. operator_loop_traced incoming (top_op # opstack) valstack calls
                  = (Inl e, calls))")
    case True
    with "2.prems" show ?thesis by auto
  next
    case False
    then have op: "top_op \<in> operatortypes"
      by (auto split: if_splits)
    have calls: "\<forall>call \<in> set ?calls. reduce_call_ok call"
      using "2.prems" op by (simp add: reduce_call_ok_def)
    show ?thesis
    proof (cases "reduce (top_op # opstack) valstack")
      case (Inl e)
      with "2.prems" calls show ?thesis
        by (auto simp: Let_def split: if_splits option.splits)
    next
      case (Inr r)
      obtain opstack' valstack' where r: "r = (opstack', valstack')" by (cases r)
      from reduce_keeps_ok [OF Inr [unfolded r] op] "2.prems"
      have ok: "opstack_ok opstack'" "valstack_ok valstack'" by simp_all
      from False "2.prems"(1) Inr r
      have rec: "operator_loop_traced incoming opstack' valstack' ?calls = (res, calls')"
        by (auto simp: Let_def split: if_splits option.splits)
      from False Inr r obtain top_prec inc_prec where
        p: "precedence top_op = Some top_prec" "precedence incoming = Some inc_prec"
        by (auto split: if_splits option.splits)
      show ?thesis
      proof (cases "top_prec > inc_prec")
        case True
        from "2.IH"(1) [OF op p True refl Inr [unfolded r] refl rec ok calls]
        show ?thesis .
      next
        case gt: False
        with False p Inr r have eq: "top_prec = inc_prec" and la: "leftassoc top_op = Some True"
          by (auto simp: Let_def split: if_splits option.splits)
        from "2.IH"(2) [OF op p gt eq la _ refl Inr [unfolded r] refl rec ok calls]
        show ?thesis by simp
      qed
    qed
  qed
qed

lemma drain_traced_ok:
  assumes "drain_traced opstack valstack calls = (res, calls')"
    and "opstack_ok opstack" and "valstack_ok valstack" and "(\<forall>call \<in> set calls. reduce_call_ok call)"
  shows "(\<forall>call \<in> set calls'. reduce_call_ok call)
       \<and> (\<forall>opstack' valstack'. res = Inr (opstack', valstack') \<longrightarrow> valstack_ok valstack')"
  using assms
proof (induction opstack valstack calls rule: drain_traced.induct)
  case (1 valstack calls)
  then show ?case by auto
next
  case (2 top_op opstack valstack calls)
  show ?case
  proof (cases "top_op = LPAREN")
    case True
    with "2.prems" show ?thesis by auto
  next
    case False
    with "2.prems" have op: "top_op \<in> operatortypes"
      by (simp add: not_LPAREN_operator)
    let ?calls = "calls @ [(top_op # opstack, valstack)]"
    have calls: "\<forall>call \<in> set ?calls. reduce_call_ok call"
      using "2.prems" op by (simp add: reduce_call_ok_def)
    show ?thesis
    proof (cases "reduce (top_op # opstack) valstack")
      case (Inl e)
      with False "2.prems" calls show ?thesis by (auto simp: Let_def)
    next
      case (Inr r)
      obtain opstack' valstack' where r: "r = (opstack', valstack')" by (cases r)
      from reduce_keeps_ok [OF Inr [unfolded r] op] "2.prems"
      have ok: "opstack_ok opstack'" "valstack_ok valstack'" by simp_all
      from "2.prems"(1) False Inr r
      have "drain_traced opstack' valstack' ?calls = (res, calls')"
        by (simp add: Let_def)
      from "2.IH" [OF False refl Inr [unfolded r] refl this ok calls]
      show ?thesis .
    qed
  qed
qed

lemma parse_loop_traced_ok:
  assumes "parse_loop_traced ts opstack valstack lparen_depths calls = (res, calls')"
    and "opstack_ok opstack" and "valstack_ok valstack"
    and "\<forall>call \<in> set calls. reduce_call_ok call"
  shows "(\<forall>call \<in> set calls'. reduce_call_ok call)
       \<and> (\<forall>ts' opstack' valstack' lparen_depths'.
             res = Inr (ts', opstack', valstack', lparen_depths')
               \<longrightarrow> opstack_ok opstack' \<and> valstack_ok valstack')"
  using assms
proof (induction ts arbitrary: opstack valstack lparen_depths calls)
  case Nil
  then show ?case by (auto simp: parse_loop_traced_Nil)
next
  case (Cons t ts)
  show ?case
  proof (cases "tokentype t" rule: token_kind_cases)
    case 1
    with Cons.prems show ?thesis by (auto simp: parse_loop_traced_EOF)
  next
    case 2
    show ?thesis
    proof (cases "\<exists>e. res = Inl e \<and> calls' = calls")
      case True
      with Cons.prems show ?thesis by auto
    next
      case False
      with 2 Cons.prems(1) obtain v where
        "parse_loop_traced ts opstack (IntLitNode v # valstack) lparen_depths calls = (res, calls')"
        by (auto simp: parse_loop_traced_INTLIT split: option.splits list.splits if_splits)
      from Cons.IH [OF this] Cons.prems show ?thesis
        by (simp add: valstack_ok_def)
    qed
  next
    case 3
    show ?thesis
    proof (cases "\<exists>e. res = Inl e \<and> calls' = calls")
      case True
      with Cons.prems show ?thesis by auto
    next
      case False
      with 3 Cons.prems(1) obtain nm where
        "parse_loop_traced ts opstack (VarRefNode nm # valstack) lparen_depths calls = (res, calls')"
        by (auto simp: parse_loop_traced_VARREF split: list.splits if_splits)
      from Cons.IH [OF this] Cons.prems show ?thesis
        by (simp add: valstack_ok_def)
    qed
  next
    case 4
    with Cons.prems(1) have
      "parse_loop_traced ts (LPAREN # opstack) valstack (length valstack # lparen_depths) calls
         = (res, calls')"
      by (simp add: parse_loop_traced_LPAREN)
    from Cons.IH [OF this] Cons.prems show ?thesis
      by (simp add: opstack_ok_def)
  next
    case 5
    obtain r c where r: "rparen_loop_traced opstack valstack lparen_depths False calls = (r, c)"
      by (cases "rparen_loop_traced opstack valstack lparen_depths False calls")
    from rparen_loop_traced_ok [OF r Cons.prems(2,3,4)]
    have c: "\<forall>call \<in> set c. reduce_call_ok call"
      and st: "\<And>os vs ds. r = Inr (os, vs, ds) \<Longrightarrow> opstack_ok os \<and> valstack_ok vs"
      by blast+
    show ?thesis
    proof (cases r)
      case (Inl e)
      with 5 r Cons.prems(1) c show ?thesis by (auto simp: parse_loop_traced_RPAREN)
    next
      case (Inr s)
      obtain os vs ds where s: "s = (os, vs, ds)" by (cases s)
      with 5 r Inr Cons.prems(1) have "parse_loop_traced ts os vs ds c = (res, calls')"
        by (simp add: parse_loop_traced_RPAREN)
      from Cons.IH [OF this] st [OF Inr [unfolded s]] c show ?thesis by simp
    qed
  next
    case 6
    show ?thesis
    proof (cases "\<exists>e. res = Inl e \<and> calls' = calls")
      case True
      with Cons.prems show ?thesis by auto
    next
      case False
      obtain r c where r: "operator_loop_traced (tokentype t) opstack valstack calls = (r, c)"
        by (cases "operator_loop_traced (tokentype t) opstack valstack calls")
      from operator_loop_traced_ok [OF r Cons.prems(2,3,4)]
      have c: "\<forall>call \<in> set c. reduce_call_ok call"
        and st: "\<And>os vs. r = Inr (os, vs) \<Longrightarrow> opstack_ok os \<and> valstack_ok vs"
        by blast+
      from False 6 Cons.prems(1) r have run:
        "(case r of Inl e \<Rightarrow> (Inl e, c)
          | Inr (os, vs) \<Rightarrow> parse_loop_traced ts (tokentype t # os) vs lparen_depths c)
         = (res, calls')"
        by (auto simp: parse_loop_traced_operator split: if_splits)
      show ?thesis
      proof (cases r)
        case (Inl e)
        with run c show ?thesis by auto
      next
        case (Inr s)
        obtain os vs where s: "s = (os, vs)" by (cases s)
        with run Inr have "parse_loop_traced ts (tokentype t # os) vs lparen_depths c = (res, calls')"
          by simp
        from Cons.IH [OF this] st [OF Inr [unfolded s]] c 6 show ?thesis
          by (simp add: opstack_ok_def)
      qed
    qed
  next
    case 7
    with Cons.prems show ?thesis by (auto simp: parse_loop_traced_other)
  qed
qed

lemma parse_expression_traced_ok:
  assumes "parse_expression_traced ts = (res, calls)"
  shows "(\<forall>call \<in> set calls. reduce_call_ok call)
       \<and> (\<forall>node ts'. res = Inr (node, ts') \<longrightarrow> binops_ok node)"
proof -
  obtain r c where r: "parse_loop_traced ts [] [] [] [] = (r, c)"
    by (cases "parse_loop_traced ts [] [] [] []")
  from parse_loop_traced_ok [OF r]
  have c: "\<forall>call \<in> set c. reduce_call_ok call"
    and st: "\<And>ts' os vs ds. r = Inr (ts', os, vs, ds) \<Longrightarrow> opstack_ok os \<and> valstack_ok vs"
    by (simp_all add: opstack_ok_def valstack_ok_def)
  show ?thesis
  proof (cases r)
    case (Inl e)
    with r assms c show ?thesis by (auto simp: parse_expression_traced_def)
  next
    case (Inr s)
    obtain ts' os vs ds where s: "s = (ts', os, vs, ds)" by (cases s)
    obtain r' c' where d: "drain_traced os vs c = (r', c')"
      by (cases "drain_traced os vs c")
    from st [OF Inr [unfolded s]] drain_traced_ok [OF d] c
    have c': "\<forall>call \<in> set c'. reduce_call_ok call"
      and v: "\<And>os' vs'. r' = Inr (os', vs') \<Longrightarrow> valstack_ok vs'"
      by blast+
    show ?thesis
    proof (cases r')
      case (Inl e)
      with r Inr s d assms c' show ?thesis by (auto simp: parse_expression_traced_def)
    next
      case inr: (Inr s')
      obtain os' vs' where s': "s' = (os', vs')" by (cases s')
      from v [OF inr [unfolded s']] have "length vs' = 1 \<Longrightarrow> binops_ok (hd vs')"
        by (cases vs') (simp_all add: valstack_ok_def)
      with r Inr s d inr s' assms c' show ?thesis
        by (auto simp: parse_expression_traced_def split: if_splits)
    qed
  qed
qed

lemmas traced_simps = parse_loop_traced_EOF parse_loop_traced_INTLIT parse_loop_traced_VARREF
  parse_loop_traced_LPAREN parse_loop_traced_RPAREN parse_loop_traced_operator
  parse_loop_traced_Nil parse_expression_traced_def

section \<open>Parentheses\<close>

text \<open>
  C1. The claim is that \<open>(((1)))\<close> parses to the same tree as \<open>1\<close>, and that one more pair
  of parentheses around a whole expression does not change the tree. The RPAREN branch
  (lines 109 to 118) raises "expected lparen, intlit, or varref after lparen" whenever no
  reduction happened between the RPAREN and its LPAREN, so a parenthesized operand is
  rejected although an integer literal does follow the LPAREN: \<open>(((1)))\<close> and, for every
  literal and every rest of the stream, \<open>(v)\<close> fail with that message, while \<open>1\<close> parses to
  \<open>IntLitNode 1\<close>; \<open>(1 + 2)\<close> parses, and \<open>((1 + 2))\<close> fails.
\<close>

theorem parenthesized_literal_rejected:
  "parse_expression [token LPAREN, token LPAREN, token LPAREN, intlit 1,
                     token RPAREN, token RPAREN, token RPAREN, token EOF]
     = Inl ExpectedOperandAfterLparen
   \<and> parse_expression [intlit 1, token EOF] = Inr (IntLitNode 1, [token EOF])
   \<and> parse_expression (token LPAREN # intlit v # token RPAREN # rest)
     = Inl ExpectedOperandAfterLparen
   \<and> parse_expression [token LPAREN, intlit 1, token PLUS, intlit 2, token RPAREN, token EOF]
     = Inr (BinOpNode PLUS (IntLitNode 1) (IntLitNode 2), [token EOF])
   \<and> parse_expression [token LPAREN, token LPAREN, intlit 1, token PLUS, intlit 2,
                       token RPAREN, token RPAREN, token EOF]
     = Inl ExpectedOperandAfterLparen"
  by (simp add: eval_simps operatortypes_def)

text \<open>
  C6. \<open>(1 + 2\<close>, an LPAREN left open at EOF, and \<open>1 + 2)\<close>, an RPAREN with no LPAREN on
  the operator stack, both fail with "mismatched parentheses".
\<close>

theorem mismatched_parentheses:
  "parse_expression [token LPAREN, intlit 1, token PLUS, intlit 2, token EOF]
     = Inl MismatchedParentheses
   \<and> parse_expression [intlit 1, token PLUS, intlit 2, token RPAREN, token EOF]
     = Inl MismatchedParentheses"
  by (simp add: eval_simps operatortypes_def)

text \<open>
  C7, as stated: \<open>()\<close> and \<open>(1 +)\<close> both fail with the condition of the empty or incomplete
  group, whose message is "expected lparen, intlit, or varref after lparen". That is not
  what \<open>(1 +)\<close> fails with.
\<close>

theorem incomplete_group_counterexample:
  "parse_expression [token LPAREN, intlit 1, token PLUS, token RPAREN, token EOF]
     \<noteq> Inl ExpectedOperandAfterLparen"
  by (simp add: eval_simps operatortypes_def)

text \<open>
  C7, amended: \<open>()\<close> fails with "expected lparen, intlit, or varref after lparen";
  \<open>(1 +)\<close> fails too, in \<open>reduce\<close>, with "expected operand or lparen after operator",
  the condition of a reduction with fewer than two operands.
\<close>

theorem empty_and_incomplete_groups:
  "parse_expression [token LPAREN, token RPAREN, token EOF] = Inl ExpectedOperandAfterLparen
   \<and> parse_expression [token LPAREN, intlit 1, token PLUS, token RPAREN, token EOF]
     = Inl ExpectedOperandAfterOperator"
  by (simp add: eval_simps operatortypes_def)

section \<open>Operands\<close>

text \<open>
  C8. After an integer literal is consumed (an INTLIT token that carries its value; without
  one, line 85 raises "malformed INTLIT token" first), if the lookahead is not one of the
  five operator kinds, RPAREN or EOF, the main loop fails with "expected operator or rparen
  after int literal", whatever the three stacks hold, and so does \<open>parse_expression\<close> when
  the literal is the first token. When the literal comes later, before any EOF token,
  \<open>parse_expression\<close> returns no tree: it fails there or earlier.
\<close>

theorem operand_adjacency:
  assumes "tokentype t = INTLIT" and "intvalue t = Some v" and "\<not> follows_operand nxt"
  shows "parse_loop (t # nxt # rest) opstack valstack lparen_depths
           = Inl ExpectedOperatorAfterIntLit
       \<and> parse_expression (t # nxt # rest) = Inl ExpectedOperatorAfterIntLit
       \<and> ((\<forall>x \<in> set pre. tokentype x \<noteq> EOF) \<longrightarrow>
            (\<exists>e. parse_expression (pre @ t # nxt # rest) = Inl e))"
proof -
  have here: "parse_loop (t # nxt # rest) os vs ds = Inl ExpectedOperatorAfterIntLit"
    for os vs ds
    using assms by (simp add: parse_loop_INTLIT)
  have "\<exists>e. parse_loop (pre @ t # nxt # rest) [] [] [] = Inl e"
    if "\<forall>x \<in> set pre. tokentype x \<noteq> EOF"
    using parse_loop_fails_before_EOF [OF that, of "t # nxt # rest" "[]" "[]" "[]"] here
    by simp
  then have "(\<forall>x \<in> set pre. tokentype x \<noteq> EOF) \<longrightarrow>
            (\<exists>e. parse_expression (pre @ t # nxt # rest) = Inl e)"
    by (auto simp: parse_expression_def)
  with here show ?thesis
    by (simp add: parse_expression_def)
qed

text \<open>
  C8, at the input of the claim: \<open>1 2\<close> fails with "expected operator or rparen after int
  literal", and \<open>( 1 2\<close> returns no tree.
\<close>

theorem operand_adjacency_witness:
  "tokentype (intlit 1) = INTLIT \<and> intvalue (intlit 1) = Some 1 \<and> \<not> follows_operand (intlit 2)
   \<and> parse_expression [intlit 1, intlit 2, token EOF] = Inl ExpectedOperatorAfterIntLit
   \<and> tokentype (token LPAREN) \<noteq> EOF
   \<and> parse_expression [token LPAREN, intlit 1, intlit 2, token EOF]
       = Inl ExpectedOperatorAfterIntLit"
  using operand_adjacency [of "intlit 1" 1 "intlit 2" "[token EOF]" "[]" "[]" "[]" "[token LPAREN]"]
  by (simp add: eval_simps operatortypes_def)

text \<open>
  C2, as stated: for every token sequence with a VARREF token without lexeme on the
  left-hand side of an assignment, \<open>parse\<close> fails with the malformed-token error. With the
  incomplete right-hand side \<open>1 +\<close> the failure is the one of the expression parser, which
  runs before the lexeme is tested (lines 38 to 40).
\<close>

theorem missing_lexeme_counterexample:
  "parse [token VARREF, token ASSIGN, intlit 1, token PLUS, token EOF]
     = Inl ExpectedOperandAfterOperator
   \<and> parse [token VARREF, token ASSIGN, intlit 1, token PLUS, token EOF]
     \<noteq> Inl MalformedVARREF_LHS"
  by (simp add: parse_simps eval_simps operatortypes_def)

text \<open>
  C2, amended. In an expression, a VARREF token without lexeme is accepted as one whose
  lexeme is the empty string: the loop pushes \<open>VarRefNode []\<close> and, when the next token is
  an operator, RPAREN or EOF, goes on with it; otherwise it fails with "expected operator
  or rparen after variable reference", as for any VARREF token. \<open>parse_expression\<close> returns
  what it returns when the lexeme is the empty string, wherever the token stands before the
  first EOF. As the first token of a statement, such a token makes \<open>parse\<close> fail, whatever
  follows. When the next token is not ASSIGN, the failure is "expected ASSIGN but found"
  the kind of that token; when it is ASSIGN and \<open>parse_expression\<close> fails on the rest, the
  failure is that of \<open>parse_expression\<close>; when it is ASSIGN and \<open>parse_expression\<close> accepts
  the rest, the failure is "malformed VARREF token on LHS".
\<close>

theorem missing_lexeme_policy:
  assumes "tokentype t = VARREF" and "lexeme t = None"
  shows "parse_loop (t # nxt # rest) opstack valstack lparen_depths
           = (if follows_operand nxt
              then parse_loop (nxt # rest) opstack (VarRefNode [] # valstack) lparen_depths
              else Inl ExpectedOperatorAfterVarRef)
       \<and> ((\<forall>x \<in> set pre. tokentype x \<noteq> EOF) \<longrightarrow>
            parse_expression (pre @ t # rest)
              = parse_expression (pre @ t\<lparr>lexeme := Some []\<rparr> # rest))
       \<and> (\<exists>e. parse (t # ts) = Inl e)
       \<and> (tokentype a \<noteq> ASSIGN \<longrightarrow>
            parse (t # a # ts) = Inl (ExpectedButFound ASSIGN (tokentype a)))
       \<and> (tokentype a = ASSIGN \<and> parse_expression ts = Inl e \<longrightarrow>
            parse (t # a # ts) = Inl e)
       \<and> (tokentype a = ASSIGN \<and> parse_expression ts = Inr (rhs, ts') \<longrightarrow>
            parse (t # a # ts) = Inl MalformedVARREF_LHS)"
proof (intro conjI impI)
  from assms show "parse_loop (t # nxt # rest) opstack valstack lparen_depths
           = (if follows_operand nxt
              then parse_loop (nxt # rest) opstack (VarRefNode [] # valstack) lparen_depths
              else Inl ExpectedOperatorAfterVarRef)"
    by (simp add: parse_loop_VARREF)
next
  assume "\<forall>x \<in> set pre. tokentype x \<noteq> EOF"
  from parse_loop_blank_lexeme [OF assms this]
  show "parse_expression (pre @ t # rest) = parse_expression (pre @ t\<lparr>lexeme := Some []\<rparr> # rest)"
    by (simp add: parse_expression_def)
next
  show "\<exists>e. parse (t # ts) = Inl e"
    using assms by (rule parse_VARREF_fails_without_lexeme)
next
  assume "tokentype a \<noteq> ASSIGN"
  with assms show "parse (t # a # ts) = Inl (ExpectedButFound ASSIGN (tokentype a))"
    by (simp add: parse_simps)
next
  assume "tokentype a = ASSIGN \<and> parse_expression ts = Inl e"
  with assms show "parse (t # a # ts) = Inl e"
    by (simp add: parse_simps)
next
  assume "tokentype a = ASSIGN \<and> parse_expression ts = Inr (rhs, ts')"
  with assms show "parse (t # a # ts) = Inl MalformedVARREF_LHS"
    by (simp add: parse_simps)
qed

text \<open>
  C2, amended, at concrete inputs: a lone VARREF without lexeme is pushed as
  \<open>VarRefNode []\<close>; followed by an integer literal it fails with "expected operator or
  rparen after variable reference"; \<open>1 + v\<close> parses to the sum of \<open>1\<close> and \<open>VarRefNode []\<close>;
  \<open>v\<close> alone as a statement fails with "expected ASSIGN but found EOF"; \<open>v =\<close> fails with
  the "expression did not reduce to one AST" of the expression parser; and \<open>v = 1\<close> fails
  with "malformed VARREF token on LHS".
\<close>

theorem missing_lexeme_policy_witness:
  "tokentype (token VARREF) = VARREF \<and> lexeme (token VARREF) = None
   \<and> follows_operand (token EOF)
   \<and> parse_loop [token VARREF, token EOF] [] [] [] = Inr ([token EOF], [], [VarRefNode []], [])
   \<and> \<not> follows_operand (intlit 2)
   \<and> parse_loop [token VARREF, intlit 2, token EOF] [] [] [] = Inl ExpectedOperatorAfterVarRef
   \<and> tokentype (intlit 1) \<noteq> EOF \<and> tokentype (token PLUS) \<noteq> EOF
   \<and> parse_expression [intlit 1, token PLUS, token VARREF, token EOF]
       = Inr (BinOpNode PLUS (IntLitNode 1) (VarRefNode []), [token EOF])
   \<and> tokentype (token EOF) \<noteq> ASSIGN
   \<and> parse [token VARREF, token EOF] = Inl (ExpectedButFound ASSIGN EOF)
   \<and> tokentype (token ASSIGN) = ASSIGN
   \<and> parse_expression [token EOF] = Inl DidNotReduceToOne
   \<and> parse [token VARREF, token ASSIGN, token EOF] = Inl DidNotReduceToOne
   \<and> parse_expression [intlit 1, token EOF] = Inr (IntLitNode 1, [token EOF])
   \<and> parse [token VARREF, token ASSIGN, intlit 1, token EOF] = Inl MalformedVARREF_LHS"
  using missing_lexeme_policy [of "token VARREF" "token EOF" "[]" "[]" "[]" "[]"
          "[intlit 1, token PLUS]" "[]" "token EOF" "DidNotReduceToOne" "IntLitNode 1" "[token EOF]"]
        missing_lexeme_policy [of "token VARREF" "intlit 2" "[token EOF]" "[]" "[]" "[]"
          "[intlit 1, token PLUS]" "[token EOF]" "token ASSIGN" "DidNotReduceToOne"
          "IntLitNode 1" "[token EOF]"]
        missing_lexeme_policy [of "token VARREF" "token EOF" "[token EOF]" "[]" "[]" "[]"
          "[intlit 1, token PLUS]" "[intlit 1, token EOF]" "token ASSIGN" "DidNotReduceToOne"
          "IntLitNode 1" "[token EOF]"]
  by (simp add: parse_simps eval_simps operatortypes_def)

section \<open>Precedence and associativity\<close>

text \<open>
  C3. With the precedence table of the source, an operator of higher precedence binds
  tighter than one of lower precedence on both sides: for operators \<open>lo\<close> and \<open>hi\<close> with
  the precedence of \<open>lo\<close> below that of \<open>hi\<close>, \<open>a lo b hi c\<close> parses to \<open>a lo (b hi c)\<close> and
  \<open>a hi b lo c\<close> parses to \<open>(a hi b) lo c\<close>.
\<close>

theorem precedence_resolution:
  assumes "precedence lo = Some p" and "precedence hi = Some q" and "p < q"
  shows "parse_expression [intlit a, token lo, intlit b, token hi, intlit c, token EOF]
           = Inr (BinOpNode lo (IntLitNode a) (BinOpNode hi (IntLitNode b) (IntLitNode c)),
                  [token EOF])
       \<and> parse_expression [intlit a, token hi, intlit b, token lo, intlit c, token EOF]
           = Inr (BinOpNode lo (BinOpNode hi (IntLitNode a) (IntLitNode b)) (IntLitNode c),
                  [token EOF])"
proof -
  have ops: "lo \<in> operatortypes" "hi \<in> operatortypes"
    using assms precedence_Some_operator by blast+
  then have "lo \<noteq> LPAREN" "hi \<noteq> LPAREN"
    by (auto simp: operatortypes_def)
  with assms ops show ?thesis
    by (simp add: eval_simps)
qed

text \<open>
  C3, at the inputs of the claim: the table is EXPONENT 3, TIMES and DIVIDE 2, PLUS and
  MINUS 1; \<open>1 + 2 * 3\<close> parses to \<open>1 + (2 * 3)\<close> and \<open>2 * 3 + 1\<close> to \<open>(2 * 3) + 1\<close>.
\<close>

theorem precedence_resolution_witness:
  "precedence EXPONENT = Some 3 \<and> precedence TIMES = Some 2 \<and> precedence DIVIDE = Some 2
   \<and> precedence PLUS = Some 1 \<and> precedence MINUS = Some 1 \<and> (1::nat) < 2
   \<and> parse_expression [intlit 1, token PLUS, intlit 2, token TIMES, intlit 3, token EOF]
       = Inr (BinOpNode PLUS (IntLitNode 1) (BinOpNode TIMES (IntLitNode 2) (IntLitNode 3)),
              [token EOF])
   \<and> parse_expression [intlit 2, token TIMES, intlit 3, token PLUS, intlit 1, token EOF]
       = Inr (BinOpNode PLUS (BinOpNode TIMES (IntLitNode 2) (IntLitNode 3)) (IntLitNode 1),
              [token EOF])"
  using precedence_resolution [of PLUS 1 TIMES 2 1 2 3]
        precedence_resolution [of PLUS 1 TIMES 2 2 3 1]
  by (simp add: precedence_simps)

text \<open>
  C4. EXPONENT nests to the right and the four other operators nest to the left: when
  \<open>k1\<close> is left-associative and \<open>k2\<close> has the same precedence, \<open>a k1 b k2 c\<close> parses to
  \<open>(a k1 b) k2 c\<close>, and \<open>a ^ b ^ c\<close> parses to \<open>a ^ (b ^ c)\<close>.
\<close>

theorem associativity_resolution:
  "(leftassoc k1 = Some True \<and> precedence k2 = precedence k1 \<longrightarrow>
      parse_expression [intlit a, token k1, intlit b, token k2, intlit c, token EOF]
        = Inr (BinOpNode k2 (BinOpNode k1 (IntLitNode a) (IntLitNode b)) (IntLitNode c),
               [token EOF]))
   \<and> parse_expression [intlit a, token EXPONENT, intlit b, token EXPONENT, intlit c, token EOF]
        = Inr (BinOpNode EXPONENT (IntLitNode a) (BinOpNode EXPONENT (IntLitNode b) (IntLitNode c)),
               [token EOF])"
proof (intro conjI impI)
  assume h: "leftassoc k1 = Some True \<and> precedence k2 = precedence k1"
  then have k1: "k1 \<in> {PLUS, MINUS, TIMES, DIVIDE}"
    by (cases k1) (simp_all add: leftassoc_def)
  then obtain p where p: "precedence k1 = Some p" "precedence k2 = Some p"
    using h by (auto simp: precedence_simps)
  then have ops: "k1 \<in> operatortypes" "k2 \<in> operatortypes"
    using precedence_Some_operator by blast+
  then have "k1 \<noteq> LPAREN" "k2 \<noteq> LPAREN"
    by (auto simp: operatortypes_def)
  with h p ops
  show "parse_expression [intlit a, token k1, intlit b, token k2, intlit c, token EOF]
        = Inr (BinOpNode k2 (BinOpNode k1 (IntLitNode a) (IntLitNode b)) (IntLitNode c),
               [token EOF])"
    by (simp add: eval_simps)
next
  show "parse_expression [intlit a, token EXPONENT, intlit b, token EXPONENT, intlit c, token EOF]
        = Inr (BinOpNode EXPONENT (IntLitNode a) (BinOpNode EXPONENT (IntLitNode b) (IntLitNode c)),
               [token EOF])"
    by (simp add: eval_simps operatortypes_def)
qed

text \<open>
  C4, at the inputs of the claim: \<open>8 / 4 / 2\<close> parses to \<open>(8 / 4) / 2\<close> and \<open>2 ^ 3 ^ 2\<close> to
  \<open>2 ^ (3 ^ 2)\<close>.
\<close>

theorem associativity_resolution_witness:
  "leftassoc DIVIDE = Some True \<and> precedence DIVIDE = precedence DIVIDE
   \<and> parse_expression [intlit 8, token DIVIDE, intlit 4, token DIVIDE, intlit 2, token EOF]
        = Inr (BinOpNode DIVIDE (BinOpNode DIVIDE (IntLitNode 8) (IntLitNode 4)) (IntLitNode 2),
               [token EOF])
   \<and> parse_expression [intlit 2, token EXPONENT, intlit 3, token EXPONENT, intlit 2, token EOF]
        = Inr (BinOpNode EXPONENT (IntLitNode 2) (BinOpNode EXPONENT (IntLitNode 3) (IntLitNode 2)),
               [token EOF])"
  using associativity_resolution [of DIVIDE DIVIDE 8 4 2]
        associativity_resolution [of DIVIDE DIVIDE 2 3 2]
  by (simp add: leftassoc_simps)

section \<open>Statements\<close>

text \<open>
  C5. \<open>parse\<close> on \<open>x = 1 + 2 * 3\<close> followed by EOF returns the assignment of
  \<open>1 + (2 * 3)\<close> to \<open>x\<close> and leaves an empty stream: the EOF token is consumed too.
\<close>

theorem assignment_end_to_end:
  "parse [varref ''x'', token ASSIGN, intlit 1, token PLUS, intlit 2, token TIMES, intlit 3,
          token EOF]
     = Inr (AssignNode ''x''
              (BinOpNode PLUS (IntLitNode 1) (BinOpNode TIMES (IntLitNode 2) (IntLitNode 3))),
            [])"
  by (simp add: parse_simps eval_simps operatortypes_def)




section \<open>The calls of \<open>reduce\<close>\<close>

text \<open>
  C10. Every call of \<open>reduce\<close> that \<open>parse_expression\<close> makes, on any stream and whether
  the parse succeeds or fails, gets an operator stack that is not empty and has one of the
  five operator kinds on top. So no such call takes the first branch of \<open>reduce\<close> (the
  "mismatched parentheses" of line 160), every node a call builds and every node under it
  carries an operator kind, and so does every \<open>BinOpNode\<close> of a tree that
  \<open>parse_expression\<close> returns. The recorded run returns what \<open>parse_expression\<close> returns.
\<close>

theorem reduce_only_on_operators:
  "fst (parse_expression_traced ts) = parse_expression ts
   \<and> (\<forall>call \<in> set (snd (parse_expression_traced ts)).
        fst call \<noteq> [] \<and> hd (fst call) \<in> operatortypes
        \<and> reduce (fst call) (snd call) \<noteq> Inl MismatchedParentheses
        \<and> (\<forall>opstack' valstack'. reduce (fst call) (snd call) = Inr (opstack', valstack')
              \<longrightarrow> valstack_ok valstack'))
   \<and> (\<forall>node ts'. parse_expression ts = Inr (node, ts') \<longrightarrow> binops_ok node)"
proof -
  obtain res calls where r: "parse_expression_traced ts = (res, calls)"
    by (cases "parse_expression_traced ts")
  from parse_expression_traced_ok [OF r]
  have calls: "\<forall>call \<in> set calls. reduce_call_ok call"
    and node: "\<forall>node ts'. res = Inr (node, ts') \<longrightarrow> binops_ok node" by blast+
  have res: "parse_expression ts = res"
    using parse_expression_traced_fst [of ts] r by simp
  have "fst call \<noteq> [] \<and> hd (fst call) \<in> operatortypes
        \<and> reduce (fst call) (snd call) \<noteq> Inl MismatchedParentheses
        \<and> (\<forall>opstack' valstack'. reduce (fst call) (snd call) = Inr (opstack', valstack')
              \<longrightarrow> valstack_ok valstack')"
    if "call \<in> set calls" for call
  proof -
    from calls that have ok: "reduce_call_ok call" by blast
    obtain os vs where call: "call = (os, vs)" by (cases call)
    with ok obtain k os' where os: "os = k # os'" "k \<in> operatortypes" "valstack_ok vs"
      by (cases os) (auto simp: reduce_call_ok_def)
    then show ?thesis
      unfolding call
      by (cases "(k # os', vs)" rule: reduce.cases) (auto simp: valstack_ok_def)
  qed
  with r res node show ?thesis by simp
qed

text \<open>
  C10, at a concrete input: on \<open>1 + 2 * 3\<close> the calls of \<open>reduce\<close> are one with TIMES on
  top and one with PLUS on top, and the tree returned has operator kinds only.
\<close>

theorem reduce_only_on_operators_witness:
  "snd (parse_expression_traced [intlit 1, token PLUS, intlit 2, token TIMES, intlit 3, token EOF])
     = [([TIMES, PLUS], [IntLitNode 3, IntLitNode 2, IntLitNode 1]),
        ([PLUS], [BinOpNode TIMES (IntLitNode 2) (IntLitNode 3), IntLitNode 1])]
   \<and> hd [TIMES, PLUS] \<in> operatortypes \<and> hd [PLUS] \<in> operatortypes
   \<and> parse_expression [intlit 1, token PLUS, intlit 2, token TIMES, intlit 3, token EOF]
       = Inr (BinOpNode PLUS (IntLitNode 1) (BinOpNode TIMES (IntLitNode 2) (IntLitNode 3)),
              [token EOF])
   \<and> binops_ok (BinOpNode PLUS (IntLitNode 1) (BinOpNode TIMES (IntLitNode 2) (IntLitNode 3)))"
  using reduce_only_on_operators
          [of "[intlit 1, token PLUS, intlit 2, token TIMES, intlit 3, token EOF]"]
  by (simp add: traced_simps eval_simps operatortypes_def)

end
